theory Spec2Isabelle
  imports Main "HOL-Library.Word" "HOL-Library.Sublist"
begin

section \<open>Data model\<close>

text \<open>
  The library works on \<^verbatim>\<open>std::string_view\<close> and \<^verbatim>\<open>std::string\<close>. The bytes of
  a subject or of a token are a \<^typ>\<open>string\<close> (a list of \<^typ>\<open>char\<close>, one per byte).
  A \<^verbatim>\<open>string_view\<close> that a function returns is a (pointer, length) pair into the
  subject: \<open>View p n\<close> points at offset \<open>p\<close> of the subject's buffer and spans \<open>n\<close>
  bytes; \<open>Null\<close> is the default-constructed view \<^verbatim>\<open>{}\<close> (null pointer, length 0).
  An owned \<^verbatim>\<open>std::string\<close> is the list of its bytes.

  Two ways of failing are values of \<open>error\<close>: \<open>OutOfRange\<close> is the exception
  \<^verbatim>\<open>std::out_of_range\<close> that \<^verbatim>\<open>substr\<close> throws, \<open>OutOfBounds\<close> is an access through
  an iterator outside its range (undefined behaviour in C++). A loop that may run for
  ever returns an \<open>option\<close>: \<open>None\<close> is "never returns".

  Offsets into the subject (\<^verbatim>\<open>std::size_t\<close>) are \<^typ>\<open>nat\<close>: every sum of offsets the
  token functions compute is bounded by the length of the subject. Subtraction of
  offsets wraps as in C++ (\<open>size_sub\<close>), and \<^verbatim>\<open>npos\<close> is \<open>None\<close>. Two computations
  can exceed \<^verbatim>\<open>SIZE_MAX\<close> and are done in 64-bit words, where products and sums wrap:
  the size \<open>replace\<close> passes to \<^verbatim>\<open>resize\<close>, and the cursor of the chunker, which adds
  two caller-supplied \<^verbatim>\<open>size_t\<close> values.
\<close>

datatype error = OutOfRange | OutOfBounds

datatype view = Null | View (offs: nat) (len: nat)

type_synonym size_t = "64 word"

text \<open>\<^verbatim>\<open>std::string{v}\<close>: the bytes a view of the buffer \<open>buf\<close> points at, copied.\<close>

fun to_string :: "string \<Rightarrow> view \<Rightarrow> string" where
  "to_string buf Null = []"
| "to_string buf (View p n) = take n (drop p buf)"

text \<open>A view lies inside the buffer it points into.\<close>

fun within :: "string \<Rightarrow> view \<Rightarrow> bool" where
  "within buf Null = True"
| "within buf (View p n) = (p + n \<le> length buf)"

text \<open>Unsigned subtraction \<^verbatim>\<open>a - b\<close> on \<^verbatim>\<open>std::size_t\<close>.\<close>

definition size_sub :: "nat \<Rightarrow> nat \<Rightarrow> nat" where
  "size_sub a b = (if b \<le> a then a - b else a + 2 ^ 64 - b)"

subsection \<open>The standard library's \<^verbatim>\<open>string_view\<close> members\<close>

text \<open>
  \<^verbatim>\<open>sv.find(t, pos)\<close> is the lowest position \<open>i \<ge> pos\<close> with \<open>i + |t| \<le> |sv|\<close> at
  which \<open>t\<close> occurs in \<open>sv\<close>, and \<^verbatim>\<open>npos\<close> when there is none (also when
  \<open>pos > |sv|\<close>). The empty token occurs at every position up to \<open>|sv|\<close>.
  \<open>find_at t xs p\<close> searches the rest \<open>xs\<close> of the subject, which starts at offset \<open>p\<close>.
\<close>

fun find_at :: "string \<Rightarrow> string \<Rightarrow> nat \<Rightarrow> nat option" where
  "find_at t [] p = (if t = [] then Some p else None)"
| "find_at t (x # xs) p = (if prefix t (x # xs) then Some p else find_at t xs (Suc p))"

definition sv_find :: "string \<Rightarrow> string \<Rightarrow> nat \<Rightarrow> nat option" where
  "sv_find sv t pos = (if length sv < pos then None else find_at t (drop pos sv) pos)"

text \<open>
  \<^verbatim>\<open>sv.substr(pos, count)\<close> throws \<^verbatim>\<open>std::out_of_range\<close> when \<open>pos > |sv|\<close> and is
  otherwise the view of \<open>min count (|sv| - pos)\<close> bytes at \<open>pos\<close>. The count \<open>None\<close>
  is the default argument \<^verbatim>\<open>npos\<close>.
\<close>

definition substr :: "string \<Rightarrow> nat \<Rightarrow> nat option \<Rightarrow> error + view" where
  "substr sv pos count =
     (if length sv < pos then Inl OutOfRange
      else Inr (View pos (case count of None \<Rightarrow> length sv - pos
                                      | Some n \<Rightarrow> min n (length sv - pos))))"

text \<open>
  \<^verbatim>\<open>std::copy(first, last, d_first)\<close> from the bytes \<open>[fst_it, lst_it)\<close> of \<open>src\<close> into
  \<open>dst\<close> at \<open>d\<close>; it returns the buffer and the iterator past the last byte written.
  An invalid source range and a write past the end of \<open>dst\<close> are \<open>OutOfBounds\<close>.
\<close>

definition copy :: "string \<Rightarrow> nat \<Rightarrow> nat \<Rightarrow> string \<Rightarrow> nat \<Rightarrow> error + string \<times> nat" where
  "copy src fst_it lst_it dst d =
     (if lst_it < fst_it \<or> length src < lst_it \<or> length dst < d + (lst_it - fst_it)
      then Inl OutOfBounds
      else Inr (take d dst @ take (lst_it - fst_it) (drop fst_it src)
                  @ drop (d + (lst_it - fst_it)) dst,
                d + (lst_it - fst_it)))"

section \<open>\<^verbatim>\<open>detail::compare\<close>, \<^verbatim>\<open>starts_with\<close>, \<^verbatim>\<open>ends_with\<close>\<close>

text \<open>
  An iterator is modelled by the elements from its position to the end of its range:
  \<^verbatim>\<open>b != last\<close> is \<open>bs \<noteq> []\<close>, \<^verbatim>\<open>++b\<close> drops the head, \<^verbatim>\<open>*b\<close> reads it. The reverse
  iterators of \<^verbatim>\<open>ends_with\<close> walk the reversed lists.

  Reading through an iterator that stands at the end of its range reads the byte
  that lies just outside the view. The parameter \<open>past\<close> says what is there:
  \<open>Some c\<close> when that address is readable and holds \<open>c\<close> (any byte: it is not part of
  the view), \<open>None\<close> for the checked reading, where such a read is the fault
  \<open>OutOfBounds\<close>. Moving an iterator beyond the end of its range is always a fault.
\<close>

definition deref :: "'a option \<Rightarrow> 'a list \<Rightarrow> error + 'a" where
  "deref past xs =
     (case xs of
        x # _ \<Rightarrow> Inr x
      | [] \<Rightarrow> (case past of Some c \<Rightarrow> Inr c | None \<Rightarrow> Inl OutOfBounds))"

definition advance :: "'a list \<Rightarrow> error + 'a list" where
  "advance xs = (case xs of [] \<Rightarrow> Inl OutOfBounds | _ # t \<Rightarrow> Inr t)"

text \<open>
  \<^verbatim>\<open>while (b != last && *(++a) == *(++b));\<close> The result is the position of \<open>b\<close> when
  the loop is left. Both iterators are incremented and then read before \<open>b\<close> is
  compared with \<open>last\<close> again.
\<close>

fun compare_loop :: "'a option \<Rightarrow> 'a option \<Rightarrow> 'a list \<Rightarrow> 'a list \<Rightarrow> error + 'a list" where
  "compare_loop pa pb as [] = Inr []"
| "compare_loop pa pb as (y # bs) =
     (case advance as of
        Inl e \<Rightarrow> Inl e
      | Inr as' \<Rightarrow>
          (case deref pa as' of
             Inl e \<Rightarrow> Inl e
           | Inr x \<Rightarrow>
               (case deref pb bs of
                  Inl e \<Rightarrow> Inl e
                | Inr y' \<Rightarrow> if x = y' then compare_loop pa pb as' bs else Inr bs)))"

definition compare :: "'a option \<Rightarrow> 'a option \<Rightarrow> 'a list \<Rightarrow> 'a list \<Rightarrow> error + bool" where
  "compare pa pb as bs =
     (case deref pa as of
        Inl e \<Rightarrow> Inl e
      | Inr x \<Rightarrow>
          (case deref pb bs of
             Inl e \<Rightarrow> Inl e
           | Inr y \<Rightarrow>
               if x \<noteq> y then Inr False
               else (case compare_loop pa pb as bs of
                       Inl e \<Rightarrow> Inl e
                     | Inr bs' \<Rightarrow> if bs' = [] then Inr True else Inr False)))"

definition starts_with :: "char option \<Rightarrow> char option \<Rightarrow> string \<Rightarrow> string \<Rightarrow> error + bool" where
  "starts_with pa pb sv test =
     (if sv = [] \<or> test = [] \<or> length sv < length test then Inr False
      else compare pa pb sv test)"

definition ends_with :: "char option \<Rightarrow> char option \<Rightarrow> string \<Rightarrow> string \<Rightarrow> error + bool" where
  "ends_with pa pb sv test =
     (if sv = [] \<or> test = [] \<or> length sv < length test then Inr False
      else compare pa pb (rev sv) (rev test))"

section \<open>Token splitting\<close>

text \<open>
  The templates \<^verbatim>\<open>split_keep_empty<T>\<close> and \<^verbatim>\<open>split_ignore_empty<T>\<close> build each
  element of type \<^verbatim>\<open>T\<close> from a view by \<^verbatim>\<open>emplace_back\<close>; \<open>mk\<close> is that constructor.
  The loops return the state \<open>(start, parts)\<close> they are left with.
\<close>

partial_function (option) split_keep_empty_loop ::
  "(view \<Rightarrow> 'T) \<Rightarrow> string \<Rightarrow> string \<Rightarrow> nat \<Rightarrow> nat option \<Rightarrow> 'T list
     \<Rightarrow> (error + nat \<times> 'T list) option" where
  "split_keep_empty_loop mk sv token start i parts =
     (case i of
        None \<Rightarrow> Some (Inr (start, parts))
      | Some i' \<Rightarrow>
          (case substr sv start (Some (size_sub i' start)) of
             Inl e \<Rightarrow> Some (Inl e)
           | Inr v \<Rightarrow>
               split_keep_empty_loop mk sv token (i' + length token)
                 (sv_find sv token (i' + length token)) (parts @ [mk v])))"

declare split_keep_empty_loop.simps [code]

definition split_keep_empty ::
  "(view \<Rightarrow> 'T) \<Rightarrow> string \<Rightarrow> string \<Rightarrow> (error + 'T list) option" where
  "split_keep_empty mk sv token =
     (case split_keep_empty_loop mk sv token 0 (sv_find sv token 0) [] of
        None \<Rightarrow> None
      | Some (Inl e) \<Rightarrow> Some (Inl e)
      | Some (Inr (start, parts)) \<Rightarrow>
          (case substr sv start None of
             Inl e \<Rightarrow> Some (Inl e)
           | Inr v \<Rightarrow> Some (Inr (parts @ [mk v]))))"

partial_function (option) split_ignore_empty_loop ::
  "(view \<Rightarrow> 'T) \<Rightarrow> string \<Rightarrow> string \<Rightarrow> nat \<Rightarrow> nat option \<Rightarrow> 'T list
     \<Rightarrow> (error + nat \<times> 'T list) option" where
  "split_ignore_empty_loop mk sv token start i parts =
     (case i of
        None \<Rightarrow> Some (Inr (start, parts))
      | Some i' \<Rightarrow>
          (if 0 < size_sub i' start
           then (case substr sv start (Some (size_sub i' start)) of
                   Inl e \<Rightarrow> Some (Inl e)
                 | Inr v \<Rightarrow>
                     split_ignore_empty_loop mk sv token (i' + length token)
                       (sv_find sv token (i' + length token)) (parts @ [mk v]))
           else split_ignore_empty_loop mk sv token (i' + length token)
                  (sv_find sv token (i' + length token)) parts))"

declare split_ignore_empty_loop.simps [code]

definition split_ignore_empty ::
  "(view \<Rightarrow> 'T) \<Rightarrow> string \<Rightarrow> string \<Rightarrow> (error + 'T list) option" where
  "split_ignore_empty mk sv token =
     (case split_ignore_empty_loop mk sv token 0 (sv_find sv token 0) [] of
        None \<Rightarrow> None
      | Some (Inl e) \<Rightarrow> Some (Inl e)
      | Some (Inr (start, parts)) \<Rightarrow>
          (if 0 < size_sub (length sv) start
           then (case substr sv start None of
                   Inl e \<Rightarrow> Some (Inl e)
                 | Inr v \<Rightarrow> Some (Inr (parts @ [mk v])))
           else Some (Inr parts)))"

text \<open>
  \<^verbatim>\<open>split\<close> instantiates the templates at \<^verbatim>\<open>std::string_view\<close> (the view is
  kept), \<^verbatim>\<open>split_copy\<close> at \<^verbatim>\<open>std::string\<close> (the bytes are copied).
\<close>

definition split :: "string \<Rightarrow> string \<Rightarrow> bool \<Rightarrow> (error + view list) option" where
  "split sv token keep_empty_parts =
     (if keep_empty_parts then split_keep_empty (\<lambda>v. v) sv token
      else split_ignore_empty (\<lambda>v. v) sv token)"

definition split_copy :: "string \<Rightarrow> string \<Rightarrow> bool \<Rightarrow> (error + string list) option" where
  "split_copy sv token keep_empty_parts =
     (if keep_empty_parts then split_keep_empty (to_string sv) sv token
      else split_ignore_empty (to_string sv) sv token)"

definition split_first :: "string \<Rightarrow> string \<Rightarrow> error + view \<times> view" where
  "split_first sv token =
     (case sv_find sv token 0 of
        Some i \<Rightarrow>
          (case substr sv 0 (Some i) of
             Inl e \<Rightarrow> Inl e
           | Inr a \<Rightarrow>
               (case substr sv (i + length token) None of
                  Inl e \<Rightarrow> Inl e
                | Inr b \<Rightarrow> Inr (a, b)))
      | None \<Rightarrow> Inr (View 0 (length sv), Null))"

definition split_first_copy :: "string \<Rightarrow> string \<Rightarrow> error + string \<times> string" where
  "split_first_copy sv token =
     (case sv_find sv token 0 of
        Some i \<Rightarrow>
          (case substr sv 0 (Some i) of
             Inl e \<Rightarrow> Inl e
           | Inr a \<Rightarrow>
               (case substr sv (i + length token) None of
                  Inl e \<Rightarrow> Inl e
                | Inr b \<Rightarrow> Inr (to_string sv a, to_string sv b)))
      | None \<Rightarrow> Inr (sv, []))"

section \<open>\<^verbatim>\<open>replace\<close>\<close>

text \<open>The pre-scan: \<^verbatim>\<open>positions\<close> collects the start of every match.\<close>

partial_function (option) replace_scan ::
  "string \<Rightarrow> string \<Rightarrow> nat option \<Rightarrow> nat list \<Rightarrow> nat list option" where
  "replace_scan sv search_token pos positions =
     (case pos of
        None \<Rightarrow> Some positions
      | Some p \<Rightarrow>
          replace_scan sv search_token (sv_find sv search_token (p + length search_token))
            (positions @ [p]))"

declare replace_scan.simps [code]

text \<open>
  The \<^verbatim>\<open>for (auto p : positions)\<close> loop over the state
  \<open>(result, result_it, source_it)\<close>; iterators are offsets into their buffers.
\<close>

fun replace_build ::
  "string \<Rightarrow> string \<Rightarrow> string \<Rightarrow> nat list \<Rightarrow> string \<Rightarrow> nat \<Rightarrow> nat
     \<Rightarrow> error + string \<times> nat \<times> nat" where
  "replace_build sv search_token replace_token [] result result_it source_it =
     Inr (result, result_it, source_it)"
| "replace_build sv search_token replace_token (p # ps) result result_it source_it =
     (case copy sv source_it p result result_it of
        Inl e \<Rightarrow> Inl e
      | Inr (result1, it1) \<Rightarrow>
          (case copy replace_token 0 (length replace_token) result1 it1 of
             Inl e \<Rightarrow> Inl e
           | Inr (result2, it2) \<Rightarrow>
               replace_build sv search_token replace_token ps result2 it2
                 (p + length search_token)))"

text \<open>
  The size \<^verbatim>\<open>result.resize\<close> is called with:
  \<^verbatim>\<open>sv.size() - search_token.size() * n + replace_token.size() * n\<close>, every operand
  a \<^verbatim>\<open>std::size_t\<close> and every operation modulo \<open>2\<^sup>6\<^sup>4\<close>. Then \<^verbatim>\<open>replace\<close> itself;
  \<^verbatim>\<open>resize\<close> fills the new string with zero bytes.
\<close>

definition replace_size :: "string \<Rightarrow> string \<Rightarrow> string \<Rightarrow> nat \<Rightarrow> size_t" where
  "replace_size sv search_token replace_token n =
     of_nat (length sv) - of_nat (length search_token) * of_nat n
       + of_nat (length replace_token) * of_nat n"

definition replace :: "string \<Rightarrow> string \<Rightarrow> string \<Rightarrow> (error + string) option" where
  "replace sv search_token replace_token =
     (case replace_scan sv search_token (sv_find sv search_token 0) [] of
        None \<Rightarrow> None
      | Some positions \<Rightarrow>
          Some (if positions = [] then Inr sv
                else (let n = length positions;
                          result = replicate
                                     (unat (replace_size sv search_token replace_token n))
                                     (CHR 0x00)
                      in case replace_build sv search_token replace_token positions result 0 0 of
                           Inl e \<Rightarrow> Inl e
                         | Inr (result', result_it, source_it) \<Rightarrow>
                             if result_it \<noteq> length result'
                             then (case copy sv source_it (length sv) result' result_it of
                                     Inl e \<Rightarrow> Inl e
                                   | Inr (r, _) \<Rightarrow> Inr r)
                             else Inr result')))"

section \<open>\<^verbatim>\<open>ascii::split\<close>, the fixed-width chunker\<close>

text \<open>
  \<^verbatim>\<open>character_count\<close>, \<^verbatim>\<open>skip\<close> and the cursor \<^verbatim>\<open>i\<close> are \<^verbatim>\<open>std::size_t\<close>:
  \<^verbatim>\<open>i += character_count + skip\<close> wraps modulo \<open>2 ^ 64\<close>.
\<close>

partial_function (option) ascii_split_loop ::
  "string \<Rightarrow> size_t \<Rightarrow> size_t \<Rightarrow> size_t \<Rightarrow> view list \<Rightarrow> (error + view list) option" where
  "ascii_split_loop sv character_count skip i v =
     (if unat i < length sv
      then (case substr sv (unat i) (Some (unat character_count)) of
              Inl e \<Rightarrow> Some (Inl e)
            | Inr c \<Rightarrow>
                ascii_split_loop sv character_count skip (i + (character_count + skip))
                  (v @ [c]))
      else Some (Inr v))"

declare ascii_split_loop.simps [code]

definition ascii_split :: "string \<Rightarrow> size_t \<Rightarrow> size_t \<Rightarrow> (error + view list) option" where
  "ascii_split sv character_count skip =
     (if character_count = 0 then Some (Inr [])
      else ascii_split_loop sv character_count skip 0 [])"

section \<open>The notions the specification speaks of\<close>

text \<open>
  The start offsets of the non-overlapping occurrences of \<open>t\<close>, found left to right in
  the rest \<open>xs\<close> of a subject that starts at offset \<open>p\<close>: where \<open>t\<close> occurs the scan
  records the offset and moves past the whole occurrence, elsewhere it moves on by
  one byte.
\<close>

function occurrences :: "string \<Rightarrow> string \<Rightarrow> nat \<Rightarrow> nat list" where
  "occurrences t [] p = []"
| "occurrences t (x # xs) p =
     (if t \<noteq> [] \<and> prefix t (x # xs)
      then p # occurrences t (drop (length t) (x # xs)) (p + length t)
      else occurrences t xs (Suc p))"
  by pat_completeness auto
termination
  by (relation "measure (\<lambda>(t, xs, p). length xs)") (auto simp: neq_Nil_conv)

definition count_nonoverlapping_occurrences :: "string \<Rightarrow> string \<Rightarrow> nat" where
  "count_nonoverlapping_occurrences S T = length (occurrences T S 0)"

text \<open>\<open>part\<^sub>0 @ T @ part\<^sub>1 @ T @ \<dots> @ part\<^sub>k\<close>: the parts interleaved with the token.\<close>

fun join :: "string \<Rightarrow> string list \<Rightarrow> string" where
  "join t [] = []"
| "join t [p] = p"
| "join t (p # q # ps) = p @ t @ join t (q # ps)"

text \<open>
  The views between the matches at the offsets \<open>ms\<close>, from the cursor \<open>start\<close> on:
  one up to each match, and the rest of the subject.
\<close>

fun pieces :: "string \<Rightarrow> string \<Rightarrow> nat \<Rightarrow> nat list \<Rightarrow> view list" where
  "pieces sv t start [] = [View start (length sv - start)]"
| "pieces sv t start (i # ms) = View start (i - start) # pieces sv t (i + length t) ms"

text \<open>
  The chunks the specification describes: the cursor starts at \<open>i\<close> and moves on by
  \<open>step\<close>; each chunk has \<open>n\<close> bytes, or what is left of the subject.
\<close>

function chunks :: "string \<Rightarrow> nat \<Rightarrow> nat \<Rightarrow> nat \<Rightarrow> view list" where
  "chunks sv n step i =
     (if i < length sv \<and> 0 < step
      then View i (min n (length sv - i)) # chunks sv n step (i + step)
      else [])"
  by pat_completeness auto
termination
  by (relation "measure (\<lambda>(sv, n, step, i). length sv - i)") auto

declare chunks.simps [simp del]

section \<open>The scan: \<open>find\<close> and the occurrences it visits\<close>

text \<open>\<open>sv_find\<close> returns the lowest position at or after \<open>pos\<close> where the token occurs.\<close>

lemma find_at_Some:
  "find_at t xs p = Some i \<Longrightarrow>
     p \<le> i \<and> i - p \<le> length xs \<and> prefix t (drop (i - p) xs) \<and>
     (\<forall>j < i - p. \<not> prefix t (drop j xs))"
proof (induction xs arbitrary: p)
  case Nil
  then show ?case by (auto split: if_splits)
next
  case (Cons x xs)
  show ?case
  proof (cases "prefix t (x # xs)")
    case True
    with Cons.prems show ?thesis by simp
  next
    case False
    with Cons.prems have f: "find_at t xs (Suc p) = Some i" by simp
    from Cons.IH [OF f] have ih: "Suc p \<le> i" "i - Suc p \<le> length xs"
      "prefix t (drop (i - Suc p) xs)" "\<forall>j < i - Suc p. \<not> prefix t (drop j xs)"
      by auto
    from ih(1) have eq: "i - p = Suc (i - Suc p)" by simp
    have "\<not> prefix t (drop j (x # xs))" if "j < i - p" for j
    proof (cases j)
      case 0
      with False show ?thesis by simp
    next
      case (Suc k)
      with that eq have "k < i - Suc p" by simp
      with ih(4) Suc show ?thesis by simp
    qed
    with ih eq show ?thesis by simp
  qed
qed

lemma find_at_None:
  "find_at t xs p = None \<Longrightarrow> j \<le> length xs \<Longrightarrow> \<not> prefix t (drop j xs)"
proof (induction xs arbitrary: p j)
  case Nil
  then show ?case by (auto split: if_splits)
next
  case (Cons x xs)
  from Cons.prems have np: "\<not> prefix t (x # xs)" and f: "find_at t xs (Suc p) = None"
    by (auto split: if_splits)
  show ?case
  proof (cases j)
    case 0
    with np show ?thesis by simp
  next
    case (Suc k)
    with Cons.prems have "k \<le> length xs" by simp
    from Cons.IH [OF f this] Suc show ?thesis by simp
  qed
qed

lemma find_at_empty: "find_at [] xs p = Some p"
  by (cases xs) auto

lemma sv_find_empty: "pos \<le> length sv \<Longrightarrow> sv_find sv [] pos = Some pos"
  by (simp add: sv_find_def find_at_empty)

lemma sv_find_Some:
  assumes "sv_find sv t pos = Some i"
  shows "pos \<le> i" and "i + length t \<le> length sv" and "prefix t (drop i sv)"
    and "\<And>j. pos \<le> j \<Longrightarrow> j < i \<Longrightarrow> \<not> prefix t (drop j sv)"
proof -
  from assms have le: "pos \<le> length sv" and f: "find_at t (drop pos sv) pos = Some i"
    by (auto simp: sv_find_def split: if_splits)
  from find_at_Some [OF f] have F1: "pos \<le> i" and F2: "i - pos \<le> length (drop pos sv)"
    and F3: "prefix t (drop (i - pos) (drop pos sv))"
    and F4: "\<forall>j < i - pos. \<not> prefix t (drop j (drop pos sv))"
    by blast+
  from F1 show "pos \<le> i" .
  from F2 F1 le have 2: "i \<le> length sv" unfolding length_drop by arith
  from F3 F1 show 3: "prefix t (drop i sv)" by simp
  from 3 have "length t \<le> length (drop i sv)" by (rule prefix_length_le)
  with 2 show "i + length t \<le> length sv" by simp
  fix j assume "pos \<le> j" "j < i"
  then have "j - pos < i - pos" by simp
  with F4 have "\<not> prefix t (drop (j - pos) (drop pos sv))" by blast
  with \<open>pos \<le> j\<close> show "\<not> prefix t (drop j sv)" by simp
qed

lemma sv_find_None:
  assumes "sv_find sv t pos = None" "pos \<le> j" "j \<le> length sv"
  shows "\<not> prefix t (drop j sv)"
proof -
  from assms have f: "find_at t (drop pos sv) pos = None"
    by (auto simp: sv_find_def split: if_splits)
  from assms have "j - pos \<le> length (drop pos sv)" by simp
  from find_at_None [OF f this] assms show ?thesis by simp
qed

text \<open>
  Iterating \<open>find\<close> from the end of each match visits exactly the non-overlapping
  occurrences of a non-empty token.
\<close>

lemma occurrences_find_at_None:
  "t \<noteq> [] \<Longrightarrow> find_at t xs p = None \<Longrightarrow> occurrences t xs p = []"
  by (induction xs arbitrary: p) (auto split: if_splits)

lemma occurrences_find_at_Some:
  "t \<noteq> [] \<Longrightarrow> find_at t xs p = Some i \<Longrightarrow>
     occurrences t xs p = i # occurrences t (drop (i - p + length t) xs) (i + length t)"
proof (induction xs arbitrary: p)
  case Nil
  then show ?case by simp
next
  case (Cons x xs)
  show ?case
  proof (cases "prefix t (x # xs)")
    case True
    with Cons.prems show ?thesis by simp
  next
    case False
    with Cons.prems have f: "find_at t xs (Suc p) = Some i" by simp
    from find_at_Some [OF f] have "Suc p \<le> i" by simp
    then have "i - p + length t = Suc (i - Suc p + length t)" by simp
    with Cons.IH [OF Cons.prems(1) f] False show ?thesis by simp
  qed
qed

lemma occurrences_sv_find_None:
  "t \<noteq> [] \<Longrightarrow> start \<le> length sv \<Longrightarrow> sv_find sv t start = None \<Longrightarrow>
     occurrences t (drop start sv) start = []"
  by (simp add: sv_find_def occurrences_find_at_None)

lemma occurrences_sv_find_Some:
  assumes "t \<noteq> []" "sv_find sv t start = Some i"
  shows "occurrences t (drop start sv) start
           = i # occurrences t (drop (i + length t) sv) (i + length t)"
proof -
  from assms have f: "find_at t (drop start sv) start = Some i"
    by (auto simp: sv_find_def split: if_splits)
  from sv_find_Some(1) [OF assms(2)] have "i - start + length t + start = i + length t" by simp
  with occurrences_find_at_Some [OF assms(1) f] show ?thesis by simp
qed

text \<open>Induction along the scan of a non-empty token from the cursor \<open>start\<close>.\<close>

lemma scan_induct [consumes 2, case_names stop match]:
  assumes "t \<noteq> []" "start \<le> length sv"
    and stop: "\<And>s. s \<le> length sv \<Longrightarrow> sv_find sv t s = None \<Longrightarrow> P s []"
    and match: "\<And>s i ms. s \<le> length sv \<Longrightarrow> sv_find sv t s = Some i \<Longrightarrow>
                  ms = occurrences t (drop (i + length t) sv) (i + length t) \<Longrightarrow>
                  P (i + length t) ms \<Longrightarrow> P s (i # ms)"
  shows "P start (occurrences t (drop start sv) start)"
  using assms(2)
proof (induction "length sv - start" arbitrary: start rule: less_induct)
  case less
  show ?case
  proof (cases "sv_find sv t start")
    case None
    with stop [OF less.prems None] occurrences_sv_find_None [OF assms(1) less.prems None]
    show ?thesis by simp
  next
    case (Some i)
    note F = sv_find_Some [OF Some]
    from F(1,2) assms(1) have "length sv - (i + length t) < length sv - start"
      by (cases t) auto
    from less.hyps [OF this F(2)]
    have "P (i + length t) (occurrences t (drop (i + length t) sv) (i + length t))" .
    from match [OF less.prems Some refl this] occurrences_sv_find_Some [OF assms(1) Some]
    show ?thesis by simp
  qed
qed

section \<open>The loops return, for a non-empty token\<close>

lemma replace_scan_returns:
  assumes "t \<noteq> []" "start \<le> length sv"
  shows "replace_scan sv t (sv_find sv t start) acc
           = Some (acc @ occurrences t (drop start sv) start)"
proof -
  have "\<forall>acc. replace_scan sv t (sv_find sv t start) acc
           = Some (acc @ occurrences t (drop start sv) start)"
    using assms
  proof (induction rule: scan_induct)
    case (stop s)
    then show ?case by (simp add: replace_scan.simps)
  next
    case (match s i ms)
    show ?case
    proof
      fix acc
      have "replace_scan sv t (sv_find sv t s) acc
              = replace_scan sv t (sv_find sv t (i + length t)) (acc @ [i])"
        by (subst replace_scan.simps) (simp add: match(2))
      with match(4) show "replace_scan sv t (sv_find sv t s) acc = Some (acc @ i # ms)"
        by simp
    qed
  qed
  then show ?thesis by blast
qed

lemma split_keep_empty_loop_returns:
  assumes "t \<noteq> []" "start \<le> length sv"
  shows "\<exists>e parts'. split_keep_empty_loop mk sv t start (sv_find sv t start) parts
                       = Some (Inr (e, parts')) \<and> e \<le> length sv \<and>
            parts' @ [mk (View e (length sv - e))]
              = parts @ map mk (pieces sv t start (occurrences t (drop start sv) start))"
proof -
  have "\<forall>parts. \<exists>e parts'. split_keep_empty_loop mk sv t start (sv_find sv t start) parts
                       = Some (Inr (e, parts')) \<and> e \<le> length sv \<and>
            parts' @ [mk (View e (length sv - e))]
              = parts @ map mk (pieces sv t start (occurrences t (drop start sv) start))"
    using assms
  proof (induction rule: scan_induct)
    case (stop s)
    then show ?case by (simp add: split_keep_empty_loop.simps)
  next
    case (match s i ms)
    note F = sv_find_Some [OF match(2)]
    show ?case
    proof
      fix parts
      from F(1,2) match(1)
      have sub: "substr sv s (Some (size_sub i s)) = Inr (View s (i - s))"
        by (simp add: substr_def size_sub_def)
      have "split_keep_empty_loop mk sv t s (sv_find sv t s) parts
              = split_keep_empty_loop mk sv t (i + length t) (sv_find sv t (i + length t))
                  (parts @ [mk (View s (i - s))])"
        by (subst split_keep_empty_loop.simps) (simp add: match(2) sub)
      with match(4) [THEN spec, of "parts @ [mk (View s (i - s))]"]
      show "\<exists>e parts'. split_keep_empty_loop mk sv t s (sv_find sv t s) parts
                       = Some (Inr (e, parts')) \<and> e \<le> length sv \<and>
            parts' @ [mk (View e (length sv - e))] = parts @ map mk (pieces sv t s (i # ms))"
        by simp
    qed
  qed
  then show ?thesis by blast
qed

lemma split_keep_empty_returns:
  assumes "t \<noteq> []"
  shows "split_keep_empty mk sv t = Some (Inr (map mk (pieces sv t 0 (occurrences t sv 0))))"
proof -
  from split_keep_empty_loop_returns [OF assms, of 0 sv mk "[]"]
  obtain e parts' where
    "split_keep_empty_loop mk sv t 0 (sv_find sv t 0) [] = Some (Inr (e, parts'))"
    "e \<le> length sv"
    "parts' @ [mk (View e (length sv - e))] = map mk (pieces sv t 0 (occurrences t sv 0))"
    by auto
  then show ?thesis by (simp add: split_keep_empty_def substr_def)
qed

lemma split_ignore_empty_loop_returns:
  assumes "t \<noteq> []" "start \<le> length sv"
  shows "\<exists>e parts'. split_ignore_empty_loop mk sv t start (sv_find sv t start) parts
                       = Some (Inr (e, parts')) \<and> e \<le> length sv \<and>
            parts' @ map mk (filter (\<lambda>v. 0 < len v) [View e (length sv - e)])
              = parts @ map mk (filter (\<lambda>v. 0 < len v)
                                  (pieces sv t start (occurrences t (drop start sv) start)))"
proof -
  have "\<forall>parts. \<exists>e parts'. split_ignore_empty_loop mk sv t start (sv_find sv t start) parts
                       = Some (Inr (e, parts')) \<and> e \<le> length sv \<and>
            parts' @ map mk (filter (\<lambda>v. 0 < len v) [View e (length sv - e)])
              = parts @ map mk (filter (\<lambda>v. 0 < len v)
                                  (pieces sv t start (occurrences t (drop start sv) start)))"
    using assms
  proof (induction rule: scan_induct)
    case (stop s)
    then show ?case by (simp add: split_ignore_empty_loop.simps)
  next
    case (match s i ms)
    note F = sv_find_Some [OF match(2)]
    show ?case
    proof
      fix parts
      let ?ps = "if 0 < i - s then parts @ [mk (View s (i - s))] else parts"
      from F(1,2) match(1)
      have sub: "substr sv s (Some (i - s)) = Inr (View s (i - s))"
        and ss: "size_sub i s = i - s"
        by (simp_all add: substr_def size_sub_def)
      have "split_ignore_empty_loop mk sv t s (sv_find sv t s) parts
              = split_ignore_empty_loop mk sv t (i + length t) (sv_find sv t (i + length t)) ?ps"
        by (subst split_ignore_empty_loop.simps) (simp add: match(2) sub ss)
      with match(4) [THEN spec, of ?ps]
      show "\<exists>e parts'. split_ignore_empty_loop mk sv t s (sv_find sv t s) parts
                       = Some (Inr (e, parts')) \<and> e \<le> length sv \<and>
            parts' @ map mk (filter (\<lambda>v. 0 < len v) [View e (length sv - e)])
              = parts @ map mk (filter (\<lambda>v. 0 < len v) (pieces sv t s (i # ms)))"
        by (auto split: if_splits)
    qed
  qed
  then show ?thesis by blast
qed

lemma split_ignore_empty_returns:
  assumes "t \<noteq> []"
  shows "split_ignore_empty mk sv t
           = Some (Inr (map mk (filter (\<lambda>v. 0 < len v) (pieces sv t 0 (occurrences t sv 0)))))"
proof -
  from split_ignore_empty_loop_returns [OF assms, of 0 sv mk "[]"]
  obtain e parts' where
    "split_ignore_empty_loop mk sv t 0 (sv_find sv t 0) [] = Some (Inr (e, parts'))"
    "e \<le> length sv"
    "parts' @ map mk (filter (\<lambda>v. 0 < len v) [View e (length sv - e)])
       = map mk (filter (\<lambda>v. 0 < len v) (pieces sv t 0 (occurrences t sv 0)))"
    by auto
  then show ?thesis by (auto simp: split_ignore_empty_def substr_def size_sub_def split: if_splits)
qed

section \<open>The views between the matches\<close>

lemma join_Cons: "ps \<noteq> [] \<Longrightarrow> join t (p # ps) = p @ t @ join t ps"
  by (cases ps) auto

lemma length_join:
  "ps \<noteq> [] \<Longrightarrow> length (join x ps) = sum_list (map length ps) + (length ps - 1) * length x"
proof (induction ps)
  case Nil
  then show ?case by simp
next
  case (Cons p ps)
  then show ?case by (cases ps) (auto simp: join_Cons)
qed

lemma pieces_nonempty: "pieces sv t s ms \<noteq> []"
  by (cases ms) auto

lemma length_pieces: "length (pieces sv t s ms) = Suc (length ms)"
  by (induction ms arbitrary: s) auto

lemma prefix_drop_split:
  assumes "prefix t (drop i sv)" "s \<le> i"
  shows "drop s sv = take (i - s) (drop s sv) @ t @ drop (i + length t) sv"
proof -
  from assms(1) obtain r where r: "drop i sv = t @ r" by (auto simp: prefix_def)
  then have "drop (length t) (drop i sv) = r" by simp
  then have r': "r = drop (i + length t) sv" by (simp add: add.commute)
  have "drop s sv = take (i - s) (drop s sv) @ drop (i - s) (drop s sv)"
    by (simp only: append_take_drop_id)
  also from assms(2) have "drop (i - s) (drop s sv) = drop i sv" by simp
  finally show ?thesis using r r' by simp
qed

lemma join_pieces:
  assumes "t \<noteq> []" "start \<le> length sv"
  shows "join t (map (to_string sv) (pieces sv t start (occurrences t (drop start sv) start)))
           = drop start sv"
  using assms
proof (induction rule: scan_induct)
  case (stop s)
  then show ?case by simp
next
  case (match s i ms)
  note F = sv_find_Some [OF match(2)]
  from prefix_drop_split [OF F(3) F(1)] match(4) show ?case
    by (simp add: join_Cons pieces_nonempty)
qed

lemma pieces_within:
  assumes "t \<noteq> []" "start \<le> length sv"
  shows "\<forall>v \<in> set (pieces sv t start (occurrences t (drop start sv) start)).
           v \<noteq> Null \<and> within sv v \<and> start \<le> offs v"
  using assms
proof (induction rule: scan_induct)
  case (stop s)
  then show ?case by simp
next
  case (match s i ms)
  note F = sv_find_Some [OF match(2)]
  from F(1,2) match(4) show ?case by auto
qed

lemma pieces_ordered:
  assumes "t \<noteq> []" "start \<le> length sv"
  shows "sorted_wrt (\<lambda>u v. offs u + len u + length t \<le> offs v)
           (pieces sv t start (occurrences t (drop start sv) start))"
  using assms
proof (induction rule: scan_induct)
  case (stop s)
  then show ?case by simp
next
  case (match s i ms)
  note F = sv_find_Some [OF match(2)]
  from F(2) have "i + length t \<le> length sv" .
  from pieces_within [OF assms(1) this] match(3)
  have "\<forall>v \<in> set (pieces sv t (i + length t) ms). i + length t \<le> offs v" by simp
  with F(1) match(4) show ?case by auto
qed

lemma sublist_take_drop:
  assumes "sublist t (take n (drop s sv))" "s \<le> length sv"
  shows "\<exists>j. s \<le> j \<and> j + length t \<le> s + n \<and> j \<le> length sv \<and> prefix t (drop j sv)"
proof -
  from assms obtain ps ss where eq: "take n (drop s sv) = ps @ t @ ss"
    by (auto simp: sublist_def)
  have "drop s sv = take n (drop s sv) @ drop n (drop s sv)"
    by (simp only: append_take_drop_id)
  then have "drop s sv = (ps @ t @ ss) @ drop n (drop s sv)" by (simp only: eq)
  then obtain rest where d: "drop s sv = ps @ t @ rest" by (simp only: append_assoc)
  have "drop (length ps) (drop s sv) = t @ rest" by (simp only: d) simp
  then have p: "prefix t (drop (s + length ps) sv)" by (simp add: add.commute)
  from eq have "length (ps @ t @ ss) \<le> n" by (metis length_take min.cobounded2)
  then have l: "s + length ps + length t \<le> s + n" by simp
  from d have "length ps \<le> length (drop s sv)" by (metis length_append le_add1)
  with assms(2) have "s + length ps \<le> length sv" by simp
  with p l show ?thesis by (intro exI [of _ "s + length ps"]) simp
qed

lemma pieces_token_free:
  assumes "t \<noteq> []" "start \<le> length sv"
  shows "\<forall>v \<in> set (pieces sv t start (occurrences t (drop start sv) start)).
           \<not> sublist t (to_string sv v)"
  using assms
proof (induction rule: scan_induct)
  case (stop s)
  have "\<not> sublist t (take (length sv - s) (drop s sv))"
  proof
    assume "sublist t (take (length sv - s) (drop s sv))"
    from sublist_take_drop [OF this stop(1)] obtain j
      where "s \<le> j" "j \<le> length sv" "prefix t (drop j sv)" by blast
    with sv_find_None [OF stop(2)] show False by blast
  qed
  then show ?case by simp
next
  case (match s i ms)
  note F = sv_find_Some [OF match(2)]
  have "\<not> sublist t (take (i - s) (drop s sv))"
  proof
    assume "sublist t (take (i - s) (drop s sv))"
    from sublist_take_drop [OF this match(1)] obtain j
      where j: "s \<le> j" "j + length t \<le> s + (i - s)" "prefix t (drop j sv)" by blast
    from j(2) F(1) assms(1) have "j < i" by (cases t) auto
    with F(4) j show False by blast
  qed
  with match(4) show ?case by simp
qed

section \<open>The loops do not return, for the empty token\<close>

text \<open>
  \<^verbatim>\<open>find\<close> of the empty token returns the position it is given, so the cursor stays
  where it is and the loop condition stays true.
\<close>

lemma split_keep_empty_loop_diverges:
  assumes "split_keep_empty_loop mk sv t start i parts = Some y"
  shows "\<not> (t = [] \<and> start \<le> length sv \<and> (\<exists>j. i = Some j \<and> j \<le> length sv))"
proof (rule split_keep_empty_loop.raw_induct
    [where P = "\<lambda>mk sv t start i parts y.
                  \<not> (t = [] \<and> start \<le> length sv \<and> (\<exists>j. i = Some j \<and> j \<le> length sv))",
     OF _ assms], goal_cases)
  case (1 loop mk sv t start i parts y)
  show ?case
  proof
    assume a: "t = [] \<and> start \<le> length sv \<and> (\<exists>j. i = Some j \<and> j \<le> length sv)"
    then obtain j where j: "i = Some j" "j \<le> length sv" by blast
    from a have sub: "substr sv start (Some (size_sub j start))
                        = Inr (View start (min (size_sub j start) (length sv - start)))"
      by (simp add: substr_def)
    from a j 1(2) have
      "loop mk sv t j (Some j) (parts @ [mk (View start (min (size_sub j start) (length sv - start)))])
         = Some y"
      by (simp add: sub sv_find_empty)
    from 1(1) [OF this] a j show False by simp
  qed
qed

lemma split_ignore_empty_loop_diverges:
  assumes "split_ignore_empty_loop mk sv t start i parts = Some y"
  shows "\<not> (t = [] \<and> start \<le> length sv \<and> (\<exists>j. i = Some j \<and> j \<le> length sv))"
proof (rule split_ignore_empty_loop.raw_induct
    [where P = "\<lambda>mk sv t start i parts y.
                  \<not> (t = [] \<and> start \<le> length sv \<and> (\<exists>j. i = Some j \<and> j \<le> length sv))",
     OF _ assms], goal_cases)
  case (1 loop mk sv t start i parts y)
  show ?case
  proof
    assume a: "t = [] \<and> start \<le> length sv \<and> (\<exists>j. i = Some j \<and> j \<le> length sv)"
    then obtain j where j: "i = Some j" "j \<le> length sv" by blast
    from a have sub: "substr sv start (Some (size_sub j start))
                        = Inr (View start (min (size_sub j start) (length sv - start)))"
      by (simp add: substr_def)
    from a j 1(2) have "\<exists>ps. loop mk sv t j (Some j) ps = Some y"
      by (auto simp: sub sv_find_empty split: if_splits)
    then obtain ps where "loop mk sv t j (Some j) ps = Some y" ..
    from 1(1) [OF this] a j show False by simp
  qed
qed

lemma replace_scan_diverges:
  assumes "replace_scan sv t pos positions = Some y"
  shows "\<not> (t = [] \<and> (\<exists>j. pos = Some j \<and> j \<le> length sv))"
proof (rule replace_scan.raw_induct
    [where P = "\<lambda>sv t pos positions y. \<not> (t = [] \<and> (\<exists>j. pos = Some j \<and> j \<le> length sv))",
     OF _ assms], goal_cases)
  case (1 scan sv t pos positions y)
  show ?case
  proof
    assume a: "t = [] \<and> (\<exists>j. pos = Some j \<and> j \<le> length sv)"
    then obtain j where j: "pos = Some j" "j \<le> length sv" by blast
    from a j 1(2) have "scan sv t (Some j) (positions @ [j]) = Some y"
      by (simp add: sv_find_empty)
    from 1(1) [OF this] a j show False by simp
  qed
qed

lemma split_keep_empty_empty_token: "split_keep_empty mk sv [] = None"
proof (cases "split_keep_empty_loop mk sv [] 0 (sv_find sv [] 0) []")
  case None
  then show ?thesis by (simp add: split_keep_empty_def)
next
  case (Some y)
  from split_keep_empty_loop_diverges [OF Some] show ?thesis by (simp add: sv_find_empty)
qed

lemma split_ignore_empty_empty_token: "split_ignore_empty mk sv [] = None"
proof (cases "split_ignore_empty_loop mk sv [] 0 (sv_find sv [] 0) []")
  case None
  then show ?thesis by (simp add: split_ignore_empty_def)
next
  case (Some y)
  from split_ignore_empty_loop_diverges [OF Some] show ?thesis by (simp add: sv_find_empty)
qed

lemma replace_empty_token: "replace sv [] r = None"
proof (cases "replace_scan sv [] (sv_find sv [] 0) []")
  case None
  then show ?thesis by (simp add: replace_def)
next
  case (Some y)
  from replace_scan_diverges [OF Some] show ?thesis by (simp add: sv_find_empty)
qed

section \<open>Prefix and suffix tests\<close>

text \<open>
  When the byte just past each range is readable, \<open>compare\<close> decides whether the
  second range is a prefix of the first, whatever those two bytes are.
\<close>

lemma compare_loop_readable:
  "length bs \<le> length as \<Longrightarrow>
   \<exists>r. compare_loop (Some x) (Some y) (a # as) (b # bs) = Inr r \<and> (r = [] \<longleftrightarrow> prefix bs as)"
proof (induction bs arbitrary: as a b)
  case Nil
  then show ?case by (cases as) (auto simp: advance_def deref_def)
next
  case (Cons c cs)
  then obtain d ds where as: "as = d # ds" by (cases as) auto
  with Cons.prems have "length cs \<le> length ds" by simp
  from Cons.IH [OF this, of d c] show ?case
    by (auto simp: as advance_def deref_def)
qed

lemma compare_readable:
  assumes "bs \<noteq> []" "length bs \<le> length as"
  shows "compare (Some x) (Some y) as bs = Inr (prefix bs as)"
proof -
  from assms obtain b bs' where bs: "bs = b # bs'" by (cases bs) auto
  with assms obtain a as' where as: "as = a # as'" by (cases as) auto
  from assms have le: "length bs' \<le> length as'" by (simp add: as bs)
  from compare_loop_readable [OF le, of x y a b]
  show ?thesis by (auto simp: compare_def deref_def as bs)
qed

text \<open>
  In the checked reading the walk does not stay inside the ranges: whenever every
  byte of the test matches, the loop increments \<open>b\<close> to \<open>last\<close> and reads through it.
\<close>

lemma compare_loop_checked:
  "prefix bs as \<Longrightarrow> compare_loop None None (a # as) (b # bs) = Inl OutOfBounds"
proof (induction bs arbitrary: as a b)
  case Nil
  then show ?case by (cases as) (auto simp: advance_def deref_def)
next
  case (Cons c cs)
  then obtain ds where as: "as = c # ds" and p: "prefix cs ds" by (cases as) auto
  from Cons.IH [OF p, of c c] show ?case
    by (auto simp: as advance_def deref_def)
qed

lemma compare_checked:
  assumes "bs \<noteq> []" "prefix bs as"
  shows "compare None None as bs = Inl OutOfBounds"
proof -
  from assms obtain b bs' where bs: "bs = b # bs'" by (cases bs) auto
  with assms obtain as' where as: "as = b # as'" and p: "prefix bs' as'" by (cases as) auto
  from compare_loop_checked [OF p, of b b]
  show ?thesis by (auto simp: compare_def deref_def as bs)
qed

lemma starts_with_checked:
  assumes "test \<noteq> []" "prefix test sv"
  shows "starts_with None None sv test = Inl OutOfBounds"
proof -
  from assms have "sv \<noteq> []" "length test \<le> length sv"
    by (auto simp: prefix_def)
  with assms show ?thesis by (simp add: starts_with_def compare_checked)
qed

lemma ends_with_checked:
  assumes "test \<noteq> []" "suffix test sv"
  shows "ends_with None None sv test = Inl OutOfBounds"
proof -
  from assms have "sv \<noteq> []" "length test \<le> length sv"
    by (auto simp: suffix_def)
  moreover from assms(2) have "prefix (rev test) (rev sv)" by (simp add: suffix_to_prefix)
  ultimately show ?thesis using assms(1) by (simp add: ends_with_def compare_checked)
qed

lemma starts_with_readable:
  "starts_with (Some x) (Some y) sv test = Inr (test \<noteq> [] \<and> prefix test sv)"
proof (cases "sv = [] \<or> test = [] \<or> length sv < length test")
  case True
  then show ?thesis by (auto simp: starts_with_def dest: prefix_length_le)
next
  case False
  then show ?thesis by (simp add: starts_with_def compare_readable)
qed

lemma ends_with_readable:
  "ends_with (Some x) (Some y) sv test = Inr (test \<noteq> [] \<and> suffix test sv)"
proof (cases "sv = [] \<or> test = [] \<or> length sv < length test")
  case True
  then show ?thesis by (auto simp: ends_with_def dest: suffix_length_le)
next
  case False
  then show ?thesis by (simp add: ends_with_def compare_readable suffix_to_prefix)
qed

text \<open>
  Claim C4 says that for \<open>0 < |test| \<le> |sv|\<close> the walk of \<open>starts_with\<close> and
  \<open>ends_with\<close> reads only the \<open>|test|\<close> bytes of \<open>test\<close> and as many of \<open>sv\<close>, so
  that with checked indexing the out-of-bounds branch is never taken. The code takes
  it: \<^verbatim>\<open>*(++a) == *(++b)\<close> is evaluated while \<open>b\<close> is still one before \<open>last\<close>, so
  \<open>b\<close> is read at \<open>last\<close>, one past the end of \<open>test\<close> (for \<open>ends_with\<close>, one before
  its first byte), and \<open>a\<close> at the same offset of \<open>sv\<close>.
\<close>

theorem compare_reads_past_the_end:
  "starts_with None None ''a'' ''a'' = Inl OutOfBounds \<and>
   ends_with None None ''a'' ''a'' = Inl OutOfBounds \<and>
   starts_with None None ''abc'' ''ab'' = Inl OutOfBounds \<and>
   ends_with None None ''abc'' ''bc'' = Inl OutOfBounds"
  by (simp add: starts_with_def ends_with_def compare_def deref_def advance_def)

text \<open>
  The three guards of \<open>starts_with\<close> and \<open>ends_with\<close> return false before any byte
  is read. When a subject is tested against itself every byte matches, so the walk
  makes the stray read: with checked reading the call faults, and where the bytes
  next to the views are readable it returns true (\<open>starts_with_readable\<close>).
\<close>

lemma starts_ends_with_guards:
  assumes "sv = [] \<or> test = [] \<or> length sv < length test"
  shows "starts_with pa pb sv test = Inr False" and "ends_with pa pb sv test = Inr False"
  using assms by (simp_all add: starts_with_def ends_with_def)

lemma starts_ends_with_self_checked:
  assumes "S \<noteq> []"
  shows "starts_with None None S S = Inl OutOfBounds" and "ends_with None None S S = Inl OutOfBounds"
  using assms by (simp_all add: starts_with_checked ends_with_checked)

text \<open>
  Claim C7 says that \<open>starts_with\<close> and \<open>ends_with\<close> return false when \<open>sv\<close> is empty,
  when \<open>test\<close> is empty and when \<open>test\<close> is longer than \<open>sv\<close>, and that
  \<open>starts_with S S\<close> and \<open>ends_with S S\<close> return true for every non-empty \<open>S\<close>. The
  first half holds. For \<open>S = S\<close> the loop of \<open>compare\<close> reads one byte past the end
  of both views (one before their first byte for \<open>ends_with\<close>): the defect of claim
  C4. With checked reading the call faults and does not return true.
\<close>

theorem starts_ends_with_self_faults:
  "starts_with None None ''abc'' ''abc'' = Inl OutOfBounds \<and>
   ends_with None None ''abc'' ''abc'' = Inl OutOfBounds \<and>
   starts_with None None '''' ''x'' = Inr False \<and>
   ends_with None None '''' ''x'' = Inr False"
  by (simp add: starts_with_def ends_with_def compare_def deref_def advance_def)

section \<open>The claims on splitting\<close>

text \<open>
  Claim C2: for a non-empty token \<open>T\<close>, \<open>split S T True\<close> returns
  \<open>count_nonoverlapping_occurrences S T + 1\<close> views. They lie in \<open>S\<close> in document
  order, each starting at least \<open>|T|\<close> bytes after the end of the one before, and
  their bytes interleaved with \<open>T\<close> are \<open>S\<close>.
\<close>

theorem split_keep_empty_round_trip:
  assumes "T \<noteq> []"
  shows "\<exists>parts. split S T True = Some (Inr parts) \<and>
           length parts = count_nonoverlapping_occurrences S T + 1 \<and>
           sorted_wrt (\<lambda>u v. offs u + len u + length T \<le> offs v) parts \<and>
           (\<forall>v \<in> set parts. v \<noteq> Null \<and> within S v) \<and>
           join T (map (to_string S) parts) = S"
proof -
  let ?ps = "pieces S T 0 (occurrences T S 0)"
  have "split S T True = Some (Inr ?ps)"
    using split_keep_empty_returns [OF assms, of "\<lambda>v. v" S] by (simp add: split_def)
  moreover have "length ?ps = count_nonoverlapping_occurrences S T + 1"
    by (simp add: length_pieces count_nonoverlapping_occurrences_def)
  moreover have "sorted_wrt (\<lambda>u v. offs u + len u + length T \<le> offs v) ?ps"
    using pieces_ordered [OF assms, of 0 S] by simp
  moreover have "\<forall>v \<in> set ?ps. v \<noteq> Null \<and> within S v"
    using pieces_within [OF assms, of 0 S] by simp
  moreover have "join T (map (to_string S) ?ps) = S"
    using join_pieces [OF assms, of 0 S] by simp
  ultimately show ?thesis by blast
qed

theorem split_keep_empty_round_trip_witness:
  "'','' \<noteq> [] \<and>
   (\<exists>parts. split ''a,b,,c'' '','' True = Some (Inr parts) \<and>
      length parts = count_nonoverlapping_occurrences ''a,b,,c'' '','' + 1 \<and>
      sorted_wrt (\<lambda>u v. offs u + len u + length '','' \<le> offs v) parts \<and>
      (\<forall>v \<in> set parts. v \<noteq> Null \<and> within ''a,b,,c'' v) \<and>
      join '','' (map (to_string ''a,b,,c'') parts) = ''a,b,,c'')"
  using split_keep_empty_round_trip [of "'',''" "''a,b,,c''"] by simp

text \<open>
  Claim C8: no element of the list \<open>split_copy S T False\<close> returns is empty, for
  every \<open>S\<close> and every \<open>T\<close>. For a non-empty token the call does return a list; for
  the empty token it returns nothing at all (see claim C5).
\<close>

theorem split_copy_ignore_empty_no_empty_part:
  "(T \<noteq> [] \<longrightarrow> (\<exists>parts. split_copy S T False = Some (Inr parts))) \<and>
   (\<forall>parts. split_copy S T False = Some (Inr parts) \<longrightarrow> [] \<notin> set parts)"
proof (cases "T = []")
  case True
  then show ?thesis by (simp add: split_copy_def split_ignore_empty_empty_token)
next
  case False
  let ?ps = "filter (\<lambda>v. 0 < len v) (pieces S T 0 (occurrences T S 0))"
  have eq: "split_copy S T False = Some (Inr (map (to_string S) ?ps))"
    using split_ignore_empty_returns [OF False, of "to_string S" S] by (simp add: split_copy_def)
  have "to_string S v \<noteq> []" if "v \<in> set ?ps" for v
  proof -
    from that pieces_within [OF False, of 0 S] have "v \<noteq> Null" "within S v" "0 < len v"
      by auto
    then show ?thesis by (cases v) auto
  qed
  then have "[] \<notin> set (map (to_string S) ?ps)" by (metis (no_types, lifting) imageE set_map)
  with eq show ?thesis by simp
qed

theorem split_copy_ignore_empty_no_empty_part_witness:
  "'','' \<noteq> [] \<and>
   (\<exists>parts. split_copy ''a,b,,c'' '','' False = Some (Inr parts)) \<and>
   split_copy ''a,b,,c'' '','' False = Some (Inr [''a'', ''b'', ''c'']) \<and>
   [] \<notin> set [''a'', ''b'', ''c'']"
proof -
  have t: "'','' \<noteq> []" by simp
  have e: "split_copy ''a,b,,c'' '','' False = Some (Inr [''a'', ''b'', ''c''])"
    by code_simp
  note C = split_copy_ignore_empty_no_empty_part [of "'',''" "''a,b,,c''"]
  from C t have r: "\<exists>parts. split_copy ''a,b,,c'' '','' False = Some (Inr parts)" by blast
  from C e have n: "[] \<notin> set [''a'', ''b'', ''c'']" by blast
  from t r e n show ?thesis by (intro conjI)
qed

text \<open>
  Claim C5 asks that with an empty token \<open>split\<close>, \<open>split_copy\<close> and \<open>replace\<close> fail
  with an error or return a defined empty result, and that the scan terminates. The
  code has no such guard: \<^verbatim>\<open>find\<close> of the empty token returns the cursor itself, the
  cursor never moves, and none of the three returns.
\<close>

theorem empty_token_never_returns:
  "split ''abc'' [] True = None \<and> split ''abc'' [] False = None \<and>
   split_copy ''abc'' [] True = None \<and> split_copy ''abc'' [] False = None \<and>
   replace ''abc'' [] ''x'' = None"
  by (simp add: split_def split_copy_def split_keep_empty_empty_token
      split_ignore_empty_empty_token replace_empty_token)

text \<open>The two \<open>split_first\<close> functions, for every token.\<close>

lemma split_first_copy_eq:
  "\<exists>a b. split_first S T = Inr (a, b) \<and> split_first_copy S T = Inr (to_string S a, to_string S b)"
proof (cases "sv_find S T 0")
  case None
  then show ?thesis by (simp add: split_first_def split_first_copy_def)
next
  case (Some i)
  from sv_find_Some(2) [OF Some] show ?thesis
    by (simp add: split_first_def split_first_copy_def Some substr_def)
qed

text \<open>
  Claim C10: for a non-empty token and either policy \<open>p\<close>, the strings
  \<open>split_copy\<close> returns are the bytes of the views \<open>split\<close> returns, one for one, and
  the pair of \<open>split_first_copy\<close> is the bytes of the pair of \<open>split_first\<close>.
\<close>

theorem copy_variants_agree:
  assumes "T \<noteq> []"
  shows "(\<exists>vs. split S T p = Some (Inr vs) \<and>
                split_copy S T p = Some (Inr (map (to_string S) vs))) \<and>
         (\<exists>a b. split_first S T = Inr (a, b) \<and>
                split_first_copy S T = Inr (to_string S a, to_string S b))"
  using split_keep_empty_returns [OF assms, of "\<lambda>v. v" S]
    split_keep_empty_returns [OF assms, of "to_string S" S]
    split_ignore_empty_returns [OF assms, of "\<lambda>v. v" S]
    split_ignore_empty_returns [OF assms, of "to_string S" S]
    split_first_copy_eq [of S T]
  by (cases p) (simp_all add: split_def split_copy_def)

theorem copy_variants_agree_witness:
  "''='' \<noteq> [] \<and>
   (\<exists>vs. split ''key=value=1'' ''='' False = Some (Inr vs) \<and>
         split_copy ''key=value=1'' ''='' False = Some (Inr (map (to_string ''key=value=1'') vs))) \<and>
   (\<exists>a b. split_first ''key=value=1'' ''='' = Inr (a, b) \<and>
          split_first_copy ''key=value=1'' ''=''
            = Inr (to_string ''key=value=1'' a, to_string ''key=value=1'' b))"
  using copy_variants_agree [of "''=''" "''key=value=1''" False] by simp

section \<open>The reconstruction of \<open>replace\<close>\<close>

text \<open>What \<open>copy\<close> does to the buffer, and two writes in a row.\<close>

lemma copy_Inr:
  assumes "a \<le> b" "b \<le> length src" "d + (b - a) \<le> length dst"
  shows "copy src a b dst d
           = Inr (take d dst @ take (b - a) (drop a src) @ drop (d + (b - a)) dst, d + (b - a))"
  using assms by (simp add: copy_def)

lemma overwrite_twice:
  assumes "d + length X + length Y \<le> length dst"
  shows "take (d + length X) (take d dst @ X @ drop (d + length X) dst) @ Y
           @ drop (d + length X + length Y) (take d dst @ X @ drop (d + length X) dst)
         = take d dst @ (X @ Y) @ drop (d + length (X @ Y)) dst"
  using assms by (simp add: add.commute add.left_commute)

lemma replace_build_returns:
  assumes "t \<noteq> []" "start \<le> length sv"
  shows "\<forall>result k.
           k + length (join r (map (to_string sv)
                 (pieces sv t start (occurrences t (drop start sv) start)))) \<le> length result \<longrightarrow>
           (\<exists>W e. replace_build sv t r (occurrences t (drop start sv) start) result k start
                    = Inr (take k result @ W @ drop (k + length W) result, k + length W, e) \<and>
                  e \<le> length sv \<and>
                  W @ drop e sv = join r (map (to_string sv)
                    (pieces sv t start (occurrences t (drop start sv) start))))"
  using assms
proof (induction rule: scan_induct)
  case (stop s)
  show ?case
  proof (intro allI impI)
    fix result :: string and k
    show "\<exists>W e. replace_build sv t r [] result k s
                    = Inr (take k result @ W @ drop (k + length W) result, k + length W, e) \<and>
                  e \<le> length sv \<and>
                  W @ drop e sv = join r (map (to_string sv) (pieces sv t s []))"
      using stop(1) by (intro exI [of _ "[]"] exI [of _ s]) simp
  qed
next
  case (match s i ms)
  note F = sv_find_Some [OF match(2)]
  let ?X = "take (i - s) (drop s sv)"
  let ?J = "join r (map (to_string sv) (pieces sv t (i + length t) ms))"
  have J: "join r (map (to_string sv) (pieces sv t s (i # ms))) = ?X @ r @ ?J"
    by (simp add: join_Cons pieces_nonempty)
  from F(1,2) have lX: "length ?X = i - s" by simp
  show ?case
  proof (intro allI impI)
    fix result :: string and k
    assume "k + length (join r (map (to_string sv) (pieces sv t s (i # ms)))) \<le> length result"
    with J lX have room: "k + (i - s) + length r + length ?J \<le> length result" by simp
    let ?r1 = "take k result @ ?X @ drop (k + (i - s)) result"
    let ?r2 = "take k result @ (?X @ r) @ drop (k + length (?X @ r)) result"
    from F(1,2) room have c1: "copy sv s i result k = Inr (?r1, k + (i - s))"
      by (intro copy_Inr) simp_all
    from room lX have l1: "length ?r1 = length result" by simp
    from room l1 have "copy r 0 (length r) ?r1 (k + (i - s))
        = Inr (take (k + (i - s)) ?r1 @ take (length r - 0) (drop 0 r)
                 @ drop (k + (i - s) + (length r - 0)) ?r1, k + (i - s) + (length r - 0))"
      by (intro copy_Inr) simp_all
    moreover from room lX overwrite_twice [of k ?X r result]
    have "take (k + (i - s)) ?r1 @ r @ drop (k + (i - s) + length r) ?r1 = ?r2"
      by simp
    ultimately have c2: "copy r 0 (length r) ?r1 (k + (i - s)) = Inr (?r2, k + (i - s) + length r)"
      by simp
    from room lX have l2: "length ?r2 = length result" by simp
    from room l2 have "k + (i - s) + length r + length ?J \<le> length ?r2" by simp
    with match(4) obtain W e where
      b: "replace_build sv t r ms ?r2 (k + (i - s) + length r) (i + length t)
            = Inr (take (k + (i - s) + length r) ?r2 @ W
                     @ drop (k + (i - s) + length r + length W) ?r2,
                   k + (i - s) + length r + length W, e)"
      and e: "e \<le> length sv" and W: "W @ drop e sv = ?J"
      by blast
    from W have "length W \<le> length ?J" by (metis length_append le_add1)
    with room have roomW: "k + length (?X @ r) + length W \<le> length result"
      using lX by simp
    from overwrite_twice [OF roomW] lX
    have fin: "take (k + (i - s) + length r) ?r2 @ W
                 @ drop (k + (i - s) + length r + length W) ?r2
               = take k result @ (?X @ r @ W) @ drop (k + length (?X @ r @ W)) result"
      by (simp add: add.assoc)
    have "replace_build sv t r (i # ms) result k s
            = Inr (take k result @ (?X @ r @ W) @ drop (k + length (?X @ r @ W)) result,
                   k + length (?X @ r @ W), e)"
      using c1 c2 b fin lX by (simp add: add.assoc)
    moreover from W J have "(?X @ r @ W) @ drop e sv
                              = join r (map (to_string sv) (pieces sv t s (i # ms)))"
      by simp
    ultimately show "\<exists>W e. replace_build sv t r (i # ms) result k s
                    = Inr (take k result @ W @ drop (k + length W) result, k + length W, e) \<and>
                  e \<le> length sv \<and>
                  W @ drop e sv = join r (map (to_string sv) (pieces sv t s (i # ms)))"
      using e by blast
  qed
qed

lemma length_join_pieces:
  assumes "t \<noteq> []"
  shows "length (occurrences t sv 0) * length t \<le> length sv"
    and "length (join r (map (to_string sv) (pieces sv t 0 (occurrences t sv 0))))
           = length sv - length (occurrences t sv 0) * length t
               + length (occurrences t sv 0) * length r"
proof -
  let ?P = "map (to_string sv) (pieces sv t 0 (occurrences t sv 0))"
  have ne: "?P \<noteq> []" by (simp add: pieces_nonempty)
  have n: "length ?P - 1 = length (occurrences t sv 0)" by (simp add: length_pieces)
  from join_pieces [OF assms, of 0 sv] have "length (join t ?P) = length sv" by simp
  with length_join [OF ne, of t] n
  have sv: "length sv = sum_list (map length ?P) + length (occurrences t sv 0) * length t"
    by simp
  then show "length (occurrences t sv 0) * length t \<le> length sv" by simp
  from length_join [OF ne, of r] n sv
  show "length (join r ?P) = length sv - length (occurrences t sv 0) * length t
               + length (occurrences t sv 0) * length r"
    by simp
qed

text \<open>
  The size computed in \<^verbatim>\<open>std::size_t\<close> is the length of the result when that length
  is below \<open>2\<^sup>6\<^sup>4\<close>, and then \<open>replace\<close> returns the views between the matches
  interleaved with the replacement.
\<close>

lemma replace_size_exact:
  assumes "b * n \<le> a" "a - b * n + c * n < 2 ^ 64"
  shows "unat (of_nat a - of_nat b * of_nat n + of_nat c * of_nat n :: size_t)
           = a - b * n + c * n"
proof -
  from assms(1) have "(of_nat (a - b * n) :: size_t) = of_nat a - of_nat (b * n)"
    by (rule of_nat_diff)
  then have "(of_nat a - of_nat b * of_nat n + of_nat c * of_nat n :: size_t)
          = of_nat (a - b * n + c * n)"
    by (simp only: of_nat_add of_nat_mult)
  then have "unat (of_nat a - of_nat b * of_nat n + of_nat c * of_nat n :: size_t)
          = (a - b * n + c * n) mod 2 ^ LENGTH(64)"
    by (simp only: unat_of_nat)
  with assms(2) show ?thesis by simp
qed

lemma replace_returns:
  assumes "t \<noteq> []"
    and fits: "length sv - length (occurrences t sv 0) * length t
                 + length (occurrences t sv 0) * length r < 2 ^ 64"
  shows "replace sv t r
           = Some (Inr (join r (map (to_string sv) (pieces sv t 0 (occurrences t sv 0)))))"
proof -
  note assms = assms(1)
  let ?ms = "occurrences t sv 0"
  let ?J = "join r (map (to_string sv) (pieces sv t 0 ?ms))"
  from replace_scan_returns [OF assms, of 0 sv "[]"]
  have scan: "replace_scan sv t (sv_find sv t 0) [] = Some ?ms" by simp
  show ?thesis
  proof (cases "?ms = []")
    case True
    then show ?thesis by (simp add: replace_def scan)
  next
    case False
    let ?N = "unat (replace_size sv t r (length ?ms))"
    let ?res = "replicate ?N (CHR 0x00)"
    note L = length_join_pieces(1) [OF assms, where sv = sv]
      length_join_pieces(2) [OF assms, where sv = sv and r = r]
    from L(1) have le: "length t * length ?ms \<le> length sv" by (simp add: mult.commute)
    from fits have "length sv - length t * length ?ms + length r * length ?ms < 2 ^ 64"
      by (simp add: mult.commute)
    from replace_size_exact [OF le this] L(2) have N: "?N = length ?J"
      by (simp add: replace_size_def mult.commute)
    then have room: "0 + length ?J \<le> length ?res" by simp
    have "\<forall>result k. k + length ?J \<le> length result \<longrightarrow>
            (\<exists>W e. replace_build sv t r ?ms result k 0
                     = Inr (take k result @ W @ drop (k + length W) result, k + length W, e) \<and>
                   e \<le> length sv \<and> W @ drop e sv = ?J)"
      using replace_build_returns [OF assms le0, where sv = sv and r = r] by (simp only: drop_0)
    from this [rule_format, OF room] obtain W e where
      b: "replace_build sv t r ?ms ?res 0 0
            = Inr (take 0 ?res @ W @ drop (0 + length W) ?res, 0 + length W, e)"
      and e: "e \<le> length sv" and W: "W @ drop e sv = ?J"
      by blast
    from W have lW: "length W + (length sv - e) = length ?J"
      by (metis length_append length_drop)
    let ?res' = "W @ drop (length W) ?res"
    from lW N have lres': "length ?res' = ?N" by simp
    have fin: "(if length W \<noteq> length ?res'
                then (case copy sv e (length sv) ?res' (length W) of
                        Inl e \<Rightarrow> Inl e | Inr (r, _) \<Rightarrow> Inr r)
                else Inr ?res') = Inr ?J"
    proof (cases "length W = length ?res'")
      case True
      with lres' N lW e have "drop e sv = []" by simp
      with W True lres' lW N show ?thesis by simp
    next
      case False
      from e lW lres' N have "copy sv e (length sv) ?res' (length W)
          = Inr (take (length W) ?res' @ take (length sv - e) (drop e sv)
                   @ drop (length W + (length sv - e)) ?res', length W + (length sv - e))"
        by (intro copy_Inr) simp_all
      moreover from lW lres' N have "drop (length W + (length sv - e)) ?res' = []" by simp
      ultimately show ?thesis using False W by simp
    qed
    from b have b': "replace_build sv t r ?ms ?res 0 0 = Inr (?res', length W, e)"
      by (simp only: take_0 append_Nil add_0)
    have "replace sv t r
            = Some (case replace_build sv t r ?ms ?res 0 0 of
                      Inl e \<Rightarrow> Inl e
                    | Inr (result', result_it, source_it) \<Rightarrow>
                        if result_it \<noteq> length result'
                        then (case copy sv source_it (length sv) result' result_it of
                                Inl e \<Rightarrow> Inl e | Inr (r, _) \<Rightarrow> Inr r)
                        else Inr result')"
      unfolding replace_def scan Let_def using False by (simp only: option.case if_False)
    also have "\<dots> = Some (Inr ?J)"
      unfolding b' using fin by (simp only: sum.case prod.case)
    finally show ?thesis .
  qed
qed

section \<open>The claims on \<open>replace\<close>\<close>

text \<open>A single byte occurs in a string when it is one of its elements.\<close>

lemma set_join: "set (join r ps) \<subseteq> set r \<union> \<Union> (set ` set ps)"
  by (induction r ps rule: join.induct) auto

lemma sublist_single: "sublist [c] xs \<longleftrightarrow> c \<in> set xs"
  by (auto simp: sublist_def in_set_conv_decomp)

text \<open>
  When the length \<open>|S| - n * |T| + n * |R|\<close> fits \<^verbatim>\<open>std::size_t\<close>, where \<open>n\<close> is the
  number of non-overlapping occurrences of the non-empty token \<open>T\<close> in \<open>S\<close>,
  \<open>replace S T R\<close> returns a string of exactly that length (\<open>S\<close> itself when \<open>n = 0\<close>),
  the size passed to \<^verbatim>\<open>resize\<close> is that length and no write falls outside the buffer.
\<close>

lemma replace_exact_length:
  assumes "T \<noteq> []"
    and "length S - count_nonoverlapping_occurrences S T * length T
           + count_nonoverlapping_occurrences S T * length R < 2 ^ 64"
  shows "\<exists>r. replace S T R = Some (Inr r) \<and>
           length r = length S - count_nonoverlapping_occurrences S T * length T
                        + count_nonoverlapping_occurrences S T * length R \<and>
           count_nonoverlapping_occurrences S T * length T \<le> length S \<and>
           unat (replace_size S T R (count_nonoverlapping_occurrences S T)) = length r \<and>
           (count_nonoverlapping_occurrences S T = 0 \<longrightarrow> r = S)"
proof -
  let ?n = "count_nonoverlapping_occurrences S T"
  let ?J = "join R (map (to_string S) (pieces S T 0 (occurrences T S 0)))"
  note L = length_join_pieces(1) [OF assms(1), where sv = S]
    length_join_pieces(2) [OF assms(1), where sv = S and r = R]
  from assms(2) have fits: "length S - length (occurrences T S 0) * length T
                 + length (occurrences T S 0) * length R < 2 ^ 64"
    by (simp add: count_nonoverlapping_occurrences_def)
  have a: "replace S T R = Some (Inr ?J)" by (rule replace_returns [OF assms(1) fits])
  from L have b: "length ?J = length S - ?n * length T + ?n * length R"
    by (simp add: count_nonoverlapping_occurrences_def)
  from L have c: "?n * length T \<le> length S"
    by (simp add: count_nonoverlapping_occurrences_def)
  from L(1) have le: "length T * length (occurrences T S 0) \<le> length S"
    by (simp add: mult.commute)
  from fits have "length S - length T * length (occurrences T S 0)
                    + length R * length (occurrences T S 0) < 2 ^ 64"
    by (simp add: mult.commute)
  from replace_size_exact [OF le this] L(2)
  have d: "unat (replace_size S T R ?n) = length ?J"
    by (simp add: count_nonoverlapping_occurrences_def replace_size_def mult.commute)
  have e: "?n = 0 \<longrightarrow> ?J = S"
    by (simp add: count_nonoverlapping_occurrences_def)
  show ?thesis by (rule exI [of _ ?J]) (intro conjI a b c d e)
qed

lemma replace_example:
  "replace ''abcabc'' ''b'' ''XY'' = Some (Inr ''aXYcaXYc'') \<and>
   count_nonoverlapping_occurrences ''abcabc'' ''b'' = 2"
proof -
  have r: "replace ''abcabc'' ''b'' ''XY'' = Some (Inr ''aXYcaXYc'')" by code_simp
  have n: "count_nonoverlapping_occurrences ''abcabc'' ''b'' = 2" by code_simp
  from r n show ?thesis by (intro conjI)
qed

text \<open>
  When that length does not fit, the size wraps. A subject of \<open>2\<^sup>3\<^sup>2\<close> bytes \<open>a\<close> has
  \<open>2\<^sup>3\<^sup>2\<close> occurrences of the token \<open>a\<close>; with a replacement of \<open>2\<^sup>3\<^sup>2\<close> bytes the
  product \<^verbatim>\<open>replace_token.size() * n\<close> is \<open>2\<^sup>6\<^sup>4\<close>, that is 0.
\<close>

lemma occurrences_replicate:
  "occurrences [a] (replicate n a) p = map (\<lambda>k. p + k) [0..<n]"
proof (induction n arbitrary: p)
  case 0
  then show ?case by simp
next
  case (Suc n)
  have "map (\<lambda>k. p + k) [0..<Suc n] = p # map (\<lambda>k. Suc p + k) [0..<n]"
    by (simp add: upt_rec [of 0] map_Suc_upt [symmetric] del: upt_Suc)
  with Suc.IH [of "Suc p"] show ?case by simp
qed

lemma replace_overrun:
  assumes "t \<noteq> []" "occurrences t sv 0 = p # ps"
    and "unat (replace_size sv t r (length (p # ps))) < p + length r"
  shows "replace sv t r = Some (Inl OutOfBounds)"
proof -
  let ?res = "replicate (unat (replace_size sv t r (length (p # ps)))) (CHR 0x00)"
  from replace_scan_returns [OF assms(1), of 0 sv "[]"] assms(2)
  have scan: "replace_scan sv t (sv_find sv t 0) [] = Some (p # ps)" by simp
  have build: "replace_build sv t r (p # ps) ?res 0 0 = Inl OutOfBounds"
  proof (cases "copy sv 0 p ?res 0")
    case (Inl e)
    then have "e = OutOfBounds" by (simp add: copy_def split: if_splits)
    with Inl show ?thesis by simp
  next
    case (Inr x)
    then have x: "x = (take 0 ?res @ take (p - 0) (drop 0 sv) @ drop (0 + (p - 0)) ?res, 0 + (p - 0))"
      and p: "p \<le> length sv" "p \<le> length ?res"
      by (simp_all add: copy_def split: if_splits)
    from p assms(3) have "copy r 0 (length r) (take p sv @ drop p ?res) p = Inl OutOfBounds"
      by (simp add: copy_def)
    with Inr x show ?thesis by simp
  qed
  show ?thesis
    unfolding replace_def scan Let_def using build
    by (simp only: option.case list.distinct if_False sum.case)
qed

text \<open>
  Claim C1 says that for every \<open>S\<close>, non-empty \<open>T\<close> and \<open>R\<close> the string \<open>replace\<close> returns
  has length \<open>|S| - n * |T| + n * |R|\<close> and that the buffer is allocated at exactly
  that size. The code computes the size in \<^verbatim>\<open>std::size_t\<close> and does not check it: for
  \<open>2\<^sup>3\<^sup>2\<close> bytes \<open>a\<close>, the token \<open>a\<close> and a replacement of \<open>2\<^sup>3\<^sup>2\<close> bytes \<open>b\<close> the size
  passed to \<^verbatim>\<open>resize\<close> is 0, and the first copy of the replacement writes past the end
  of the empty buffer.
\<close>

theorem replace_size_wraps:
  "unat (replace_size (replicate (2 ^ 32) CHR ''a'') ''a'' (replicate (2 ^ 32) CHR ''b'')
           (count_nonoverlapping_occurrences (replicate (2 ^ 32) CHR ''a'') ''a'')) = 0 \<and>
   replace (replicate (2 ^ 32) CHR ''a'') ''a'' (replicate (2 ^ 32) CHR ''b'')
     = Some (Inl OutOfBounds)"
proof -
  define N :: nat where "N = 2 ^ 32"
  define S where "S = replicate N CHR ''a''"
  define R where "R = replicate N CHR ''b''"
  have N: "0 < N" by (simp add: N_def)
  have lS: "length S = N" and lR: "length R = N" by (simp_all add: S_def R_def)
  have occ: "occurrences ''a'' S 0 = map (\<lambda>k. 0 + k) [0..<N]"
    unfolding S_def by (rule occurrences_replicate)
  then have n: "length (occurrences ''a'' S 0) = N" by simp
  from N obtain ps where ps: "occurrences ''a'' S 0 = 0 # ps"
    unfolding occ by (cases N) (auto simp: upt_rec [of 0] simp del: upt_Suc)
  have "(of_nat N :: size_t) * of_nat N = 0"
    unfolding N_def by simp
  then have z: "replace_size S ''a'' R N = 0"
    by (simp add: replace_size_def lS lR)
  from ps n have len: "length (0 # ps) = N" by simp
  from z N have "unat (replace_size S ''a'' R (length (0 # ps))) < 0 + length R"
    unfolding len by (simp add: lR)
  from replace_overrun [OF _ ps this] have "replace S ''a'' R = Some (Inl OutOfBounds)"
    by simp
  moreover from z n have "unat (replace_size S ''a'' R (count_nonoverlapping_occurrences S ''a'')) = 0"
    by (simp add: count_nonoverlapping_occurrences_def)
  ultimately show ?thesis unfolding S_def R_def N_def by (intro conjI)
qed

text \<open>
  Claim C3 says that when \<open>R\<close> does not contain \<open>T\<close> the output of \<open>replace S T R\<close>
  contains no occurrence of \<open>T\<close>. The scan is a single pass over \<open>S\<close> and the output
  is not scanned again, so an occurrence can form across a replaced match:
  \<open>replace ''aabb'' ''ab'' ''''\<close> is \<open>''ab''\<close>.
\<close>

theorem replace_leaves_token_counterexample:
  "''ab'' \<noteq> [] \<and> \<not> sublist ''ab'' '''' \<and>
   replace ''aabb'' ''ab'' '''' = Some (Inr ''ab'') \<and> sublist ''ab'' ''ab''"
proof -
  have "replace ''aabb'' ''ab'' '''' = Some (Inr ''ab'')" by code_simp
  moreover have "\<not> sublist ''ab'' ''''" by simp
  moreover have "sublist ''ab'' ''ab''" by (rule sublist_order.order_refl)
  moreover have "''ab'' \<noteq> []" by simp
  ultimately show ?thesis by (intro conjI)
qed

text \<open>
  Claim C3 as amended: for a non-empty \<open>T\<close> and an \<open>R\<close> that does not contain \<open>T\<close>,
  when the length \<open>|S| - n * |T| + n * |R|\<close> of the output fits \<^verbatim>\<open>std::size_t\<close>, the
  output is the parts of \<open>split_copy S T True\<close> interleaved with \<open>R\<close>, and neither
  \<open>R\<close> nor any part contains \<open>T\<close>: an occurrence of \<open>T\<close> in the output spans a
  junction. A single-byte \<open>T\<close> cannot span one, and then the output contains no \<open>T\<close>.
\<close>

theorem replace_parts_token_free:
  assumes "T \<noteq> []" "\<not> sublist T R"
    and "length S - count_nonoverlapping_occurrences S T * length T
           + count_nonoverlapping_occurrences S T * length R < 2 ^ 64"
  shows "\<exists>parts. split_copy S T True = Some (Inr parts) \<and>
           replace S T R = Some (Inr (join R parts)) \<and>
           (\<forall>p \<in> set (R # parts). \<not> sublist T p) \<and>
           (length T = 1 \<longrightarrow> \<not> sublist T (join R parts))"
proof -
  let ?P = "map (to_string S) (pieces S T 0 (occurrences T S 0))"
  have s: "split_copy S T True = Some (Inr ?P)"
    using split_keep_empty_returns [OF assms(1), of "to_string S" S] by (simp add: split_copy_def)
  from assms(3) have fits: "length S - length (occurrences T S 0) * length T
                 + length (occurrences T S 0) * length R < 2 ^ 64"
    by (simp add: count_nonoverlapping_occurrences_def)
  have r: "replace S T R = Some (Inr (join R ?P))"
    by (rule replace_returns [OF assms(1) fits])
  have f: "\<forall>p \<in> set (R # ?P). \<not> sublist T p"
    using pieces_token_free [OF assms(1), of 0 S] assms(2) by simp
  have g: "\<not> sublist T (join R ?P)" if "length T = 1"
  proof -
    from that obtain c where T: "T = [c]" by (cases T) auto
    from f have "c \<notin> set R \<union> \<Union> (set ` set ?P)"
      unfolding T sublist_single by simp
    with set_join [of R ?P] show ?thesis unfolding T sublist_single by blast
  qed
  then have g': "length T = 1 \<longrightarrow> \<not> sublist T (join R ?P)" by (rule impI)
  show ?thesis by (rule exI [of _ ?P]) (intro conjI s r f g')
qed

theorem replace_parts_token_free_witness:
  "''b'' \<noteq> [] \<and> \<not> sublist ''b'' ''XY'' \<and>
   length ''abcabc'' - count_nonoverlapping_occurrences ''abcabc'' ''b'' * length ''b''
     + count_nonoverlapping_occurrences ''abcabc'' ''b'' * length ''XY'' < (2 :: nat) ^ 64 \<and>
   (\<exists>parts. split_copy ''abcabc'' ''b'' True = Some (Inr parts) \<and>
      replace ''abcabc'' ''b'' ''XY'' = Some (Inr (join ''XY'' parts)) \<and>
      (\<forall>p \<in> set (''XY'' # parts). \<not> sublist ''b'' p) \<and>
      (length ''b'' = 1 \<longrightarrow> \<not> sublist ''b'' (join ''XY'' parts)))"
proof -
  have t: "''b'' \<noteq> []" by simp
  have h: "\<not> sublist ''b'' ''XY''" by (simp add: sublist_single)
  have n: "count_nonoverlapping_occurrences ''abcabc'' ''b'' = 2" by code_simp
  have b: "length ''abcabc'' - count_nonoverlapping_occurrences ''abcabc'' ''b'' * length ''b''
     + count_nonoverlapping_occurrences ''abcabc'' ''b'' * length ''XY'' < (2 :: nat) ^ 64"
    unfolding n by simp
  from t h b replace_parts_token_free [OF t h b] show ?thesis
    by (intro conjI)
qed

text \<open>
  For a non-empty token and a subject whose length fits \<^verbatim>\<open>std::size_t\<close>, replacing
  the token by itself returns the subject.
\<close>

lemma replace_identity:
  assumes "T \<noteq> []" "length S < 2 ^ 64"
  shows "replace S T T = Some (Inr S)"
proof -
  from length_join_pieces(1) [OF assms(1), where sv = S] assms(2)
  have "length S - length (occurrences T S 0) * length T
          + length (occurrences T S 0) * length T < 2 ^ 64"
    by simp
  from replace_returns [OF assms(1) this] join_pieces [OF assms(1), of 0 S]
  show ?thesis by simp
qed

text \<open>
  Claim C6 says that \<open>replace S T T\<close> returns \<open>S\<close> for every \<open>S\<close> and every \<open>T\<close>, the
  empty token included. For the empty token the scan of \<open>replace\<close> has no guard (the
  defect of claim C5) and the call returns nothing.
\<close>

theorem replace_identity_empty_token:
  "replace ''a'' '''' '''' = None"
  by (rule replace_empty_token)

section \<open>The chunker\<close>

text \<open>The chunks of the specification, one by one.\<close>

lemma chunks_stop: "length sv \<le> i \<Longrightarrow> chunks sv n step i = []"
  by (subst chunks.simps) simp

lemma chunks_step:
  "i < length sv \<Longrightarrow> 0 < step \<Longrightarrow>
     chunks sv n step i = View i (min n (length sv - i)) # chunks sv n step (i + step)"
  by (subst chunks.simps) simp

lemma chunks_nth:
  "k < length (chunks sv n step i) \<Longrightarrow>
     chunks sv n step i ! k = View (i + k * step) (min n (length sv - (i + k * step)))"
proof (induction k arbitrary: i)
  case 0
  then have "i < length sv \<and> 0 < step"
    by (subst (asm) chunks.simps) (simp split: if_splits)
  then show ?case by (simp add: chunks_step)
next
  case (Suc k)
  from Suc.prems have c: "i < length sv \<and> 0 < step"
    by (subst (asm) chunks.simps) (simp split: if_splits)
  with Suc.prems have "k < length (chunks sv n step (i + step))" by (simp add: chunks_step)
  from Suc.IH [OF this] c show ?case by (simp add: chunks_step add.assoc add.commute)
qed

lemma chunks_cursor:
  "k < length (chunks sv n step i) \<Longrightarrow> i + k * step < length sv"
proof (induction k arbitrary: i)
  case 0
  then have "i < length sv \<and> 0 < step"
    by (subst (asm) chunks.simps) (simp split: if_splits)
  then show ?case by simp
next
  case (Suc k)
  from Suc.prems have c: "i < length sv \<and> 0 < step"
    by (subst (asm) chunks.simps) (simp split: if_splits)
  with Suc.prems have "k < length (chunks sv n step (i + step))" by (simp add: chunks_step)
  from Suc.IH [OF this] show ?case by (simp add: add.assoc add.commute)
qed

lemma chunks_full:
  assumes "n \<le> step" "Suc k < length (chunks sv n step i)"
  shows "len (chunks sv n step i ! k) = n"
proof -
  from assms(2) have k: "k < length (chunks sv n step i)" by simp
  from chunks_cursor [OF assms(2)] have "i + k * step + step < length sv"
    by (simp add: add.assoc add.commute)
  with assms(1) have "n \<le> length sv - (i + k * step)" by simp
  with chunks_nth [OF k] show ?thesis by simp
qed

text \<open>
  The loop returns these chunks when \<open>character_count + skip\<close> does not wrap and the
  subject is no longer than \<^verbatim>\<open>PTRDIFF_MAX\<close>: the cursor is 0 or at least one step, so
  adding a step to a cursor inside the subject does not wrap either.
\<close>

lemma unat_add_size_t:
  fixes x y :: size_t
  assumes "unat x + unat y < 2 ^ 64"
  shows "unat (x + y) = unat x + unat y"
  using assms unat_add_lem [of x y] by simp

lemma ascii_split_loop_returns:
  assumes step: "unat cc + unat skip < 2 ^ 64" and cc: "cc \<noteq> 0"
    and sv: "length sv \<le> 2 ^ 63"
    and inv: "unat i = 0 \<or> unat cc + unat skip \<le> unat i"
  shows "ascii_split_loop sv cc skip i v
           = Some (Inr (v @ chunks sv (unat cc) (unat cc + unat skip) (unat i)))"
  using inv
proof (induction "length sv - unat i" arbitrary: i v rule: less_induct)
  case less
  show ?case
  proof (cases "unat i < length sv")
    case False
    then show ?thesis
      by (subst ascii_split_loop.simps) (simp add: chunks_stop)
  next
    case True
    from cc have pos: "0 < unat cc" by (simp add: unat_gt_0)
    from step have s: "unat (cc + skip) = unat cc + unat skip"
      by (rule unat_add_size_t)
    from less.prems True sv step have "unat i + (unat cc + unat skip) < 2 ^ 64"
      by auto
    with s have "unat i + unat (cc + skip) < 2 ^ 64" by simp
    then have "unat (i + (cc + skip)) = unat i + unat (cc + skip)"
      by (rule unat_add_size_t)
    with s have i': "unat (i + (cc + skip)) = unat i + (unat cc + unat skip)" by simp
    from True have sub: "substr sv (unat i) (Some (unat cc))
                           = Inr (View (unat i) (min (unat cc) (length sv - unat i)))"
      by (simp add: substr_def)
    from i' pos True have m: "length sv - unat (i + (cc + skip)) < length sv - unat i"
      by simp
    from i' have inv': "unat (i + (cc + skip)) = 0 \<or>
                        unat cc + unat skip \<le> unat (i + (cc + skip))"
      by simp
    have "ascii_split_loop sv cc skip i v
            = ascii_split_loop sv cc skip (i + (cc + skip))
                (v @ [View (unat i) (min (unat cc) (length sv - unat i))])"
      using True by (subst ascii_split_loop.simps) (simp add: sub)
    also note less.hyps [OF m inv']
    finally show ?thesis using True pos by (simp add: i' chunks_step [of "unat i"])
  qed
qed

lemma ascii_split_loop_stuck:
  assumes "ascii_split_loop sv cc skip i v = Some y"
  shows "\<not> (cc + skip = 0 \<and> unat i < length sv)"
proof (rule ascii_split_loop.raw_induct
    [where P = "\<lambda>sv cc skip i v y. \<not> (cc + skip = 0 \<and> unat i < length sv)", OF _ assms],
    goal_cases)
  case (1 loop sv cc skip i v y)
  show ?case
  proof
    assume a: "cc + skip = 0 \<and> unat i < length sv"
    then have sub: "substr sv (unat i) (Some (unat cc))
                      = Inr (View (unat i) (min (unat cc) (length sv - unat i)))"
      by (simp add: substr_def)
    from a 1(2) have "loop sv cc skip i (v @ [View (unat i) (min (unat cc) (length sv - unat i))])
                        = Some y"
      by (simp add: sub)
    from 1(1) [OF this] a show False by simp
  qed
qed

lemma ascii_split_stuck:
  assumes "cc \<noteq> 0" "cc + skip = 0" "sv \<noteq> []"
  shows "ascii_split sv cc skip = None"
proof (cases "ascii_split_loop sv cc skip 0 []")
  case None
  with assms(1) show ?thesis by (simp add: ascii_split_def)
next
  case (Some y)
  from ascii_split_loop_stuck [OF Some] assms show ?thesis by simp
qed

text \<open>
  Claim C9 says that for \<open>character_count \<noteq> 0\<close> the chunker emits slices of up to
  \<open>character_count\<close> bytes at a cursor that starts at 0 and advances by
  \<open>character_count + skip\<close>, only the last one possibly shorter. The sum is taken in
  \<^verbatim>\<open>std::size_t\<close>: with \<open>character_count = 1\<close> and \<open>skip = 2\<^sup>6\<^sup>4 - 1\<close> it is 0, the cursor
  stays at 0 and the call does not return; with \<open>character_count = 3\<close> and
  \<open>skip = 2\<^sup>6\<^sup>4 - 2\<close> it is 1 and the chunks overlap, two of them short.
\<close>

theorem ascii_split_wraps:
  "ascii_split ''a'' 1 18446744073709551615 = None \<and>
   ascii_split ''abcdef'' 3 18446744073709551614
     = Some (Inr [View 0 3, View 1 3, View 2 3, View 3 3, View 4 2, View 5 1])"
proof -
  have "ascii_split ''a'' 1 18446744073709551615 = None"
    by (rule ascii_split_stuck) simp_all
  moreover have "ascii_split ''abcdef'' 3 18446744073709551614
     = Some (Inr [View 0 3, View 1 3, View 2 3, View 3 3, View 4 2, View 5 1])"
    by code_simp
  ultimately show ?thesis by (intro conjI)
qed

text \<open>
  The rest of the claim holds of the code: the chunker returns no chunk when
  \<open>character_count\<close> is 0. Otherwise, when \<open>character_count + skip\<close> does not exceed
  \<^verbatim>\<open>SIZE_MAX\<close> and the subject is no longer than \<^verbatim>\<open>PTRDIFF_MAX\<close>, it returns the
  chunks of the specification: chunk \<open>k\<close> is the slice of up to \<open>character_count\<close>
  bytes at \<open>k * (character_count + skip)\<close>, and every chunk but the last has exactly
  \<open>character_count\<close> bytes. The two examples of the specification hold.
\<close>

lemma ascii_split_chunks:
  assumes "unat character_count + unat skip < 2 ^ 64" "length sv \<le> 2 ^ 63"
  shows "ascii_split sv 0 skip = Some (Inr []) \<and>
         (character_count \<noteq> 0 \<longrightarrow>
            (\<exists>cs. ascii_split sv character_count skip = Some (Inr cs) \<and>
               cs = chunks sv (unat character_count) (unat character_count + unat skip) 0 \<and>
               (\<forall>k < length cs.
                  cs ! k = View (k * (unat character_count + unat skip))
                             (min (unat character_count)
                                (length sv - k * (unat character_count + unat skip))) \<and>
                  to_string sv (cs ! k)
                    = take (unat character_count)
                        (drop (k * (unat character_count + unat skip)) sv)) \<and>
               (\<forall>k. Suc k < length cs \<longrightarrow> len (cs ! k) = unat character_count))) \<and>
         map_option (map_sum id (map (to_string ''abcdef123''))) (ascii_split ''abcdef123'' 3 0)
           = Some (Inr [''abc'', ''def'', ''123'']) \<and>
         map_option (map_sum id (map (to_string ''abc,def,123''))) (ascii_split ''abc,def,123'' 3 1)
           = Some (Inr [''abc'', ''def'', ''123''])"
proof -
  let ?n = "unat character_count"
  let ?step = "unat character_count + unat skip"
  let ?cs = "chunks sv ?n ?step 0"
  have zero: "ascii_split sv 0 skip = Some (Inr [])" by (simp add: ascii_split_def)
  have general: "\<exists>cs. ascii_split sv character_count skip = Some (Inr cs) \<and>
               cs = ?cs \<and>
               (\<forall>k < length cs.
                  cs ! k = View (k * ?step) (min ?n (length sv - k * ?step)) \<and>
                  to_string sv (cs ! k) = take ?n (drop (k * ?step) sv)) \<and>
               (\<forall>k. Suc k < length cs \<longrightarrow> len (cs ! k) = ?n)"
    if cc: "character_count \<noteq> 0"
  proof -
    have "ascii_split_loop sv character_count skip 0 [] = Some (Inr ([] @ chunks sv ?n ?step (unat (0 :: size_t))))"
      by (rule ascii_split_loop_returns [OF assms(1) cc assms(2)]) simp
    with cc have a: "ascii_split sv character_count skip = Some (Inr ?cs)"
      by (simp add: ascii_split_def)
    have b: "\<forall>k < length ?cs.
                  ?cs ! k = View (k * ?step) (min ?n (length sv - k * ?step)) \<and>
                  to_string sv (?cs ! k) = take ?n (drop (k * ?step) sv)"
    proof (intro allI impI)
      fix k assume k: "k < length ?cs"
      from chunks_nth [OF k] have v: "?cs ! k = View (k * ?step) (min ?n (length sv - k * ?step))"
        by simp
      have "take (min ?n (length sv - k * ?step)) (drop (k * ?step) sv)
              = take ?n (drop (k * ?step) sv)"
        by (simp add: min_def)
      with v show "?cs ! k = View (k * ?step) (min ?n (length sv - k * ?step)) \<and>
                  to_string sv (?cs ! k) = take ?n (drop (k * ?step) sv)"
        by simp
    qed
    have c: "\<forall>k. Suc k < length ?cs \<longrightarrow> len (?cs ! k) = ?n"
      using chunks_full [of ?n ?step _ sv 0] by simp
    show ?thesis by (rule exI [of _ ?cs]) (intro conjI a refl b c)
  qed
  then have general': "character_count \<noteq> 0 \<longrightarrow>
            (\<exists>cs. ascii_split sv character_count skip = Some (Inr cs) \<and>
               cs = ?cs \<and>
               (\<forall>k < length cs.
                  cs ! k = View (k * ?step) (min ?n (length sv - k * ?step)) \<and>
                  to_string sv (cs ! k) = take ?n (drop (k * ?step) sv)) \<and>
               (\<forall>k. Suc k < length cs \<longrightarrow> len (cs ! k) = ?n))"
    by (rule impI)
  have ex1: "map_option (map_sum id (map (to_string ''abcdef123''))) (ascii_split ''abcdef123'' 3 0)
           = Some (Inr [''abc'', ''def'', ''123''])"
    by code_simp
  have ex2: "map_option (map_sum id (map (to_string ''abc,def,123''))) (ascii_split ''abc,def,123'' 3 1)
           = Some (Inr [''abc'', ''def'', ''123''])"
    by code_simp
  show ?thesis by (intro conjI zero general' ex1 ex2)
qed

lemma ascii_split_chunks_example:
  "unat (3 :: size_t) + unat (1 :: size_t) < 2 ^ 64 \<and> length ''abc,def,123'' \<le> 2 ^ 63 \<and>
   (3 :: size_t) \<noteq> 0 \<and>
   ascii_split ''abc,def,123'' 3 1 = Some (Inr [View 0 3, View 4 3, View 8 3]) \<and>
   chunks ''abc,def,123'' (unat (3 :: size_t)) (unat (3 :: size_t) + unat (1 :: size_t)) 0
     = [View 0 3, View 4 3, View 8 3]"
proof -
  have h1: "unat (3 :: size_t) + unat (1 :: size_t) < 2 ^ 64" by simp
  have h2: "length ''abc,def,123'' \<le> 2 ^ 63" by simp
  have h3: "(3 :: size_t) \<noteq> 0" by simp
  have v: "ascii_split ''abc,def,123'' 3 1 = Some (Inr [View 0 3, View 4 3, View 8 3])"
    by code_simp
  from ascii_split_chunks [OF h1 h2] h3 v
  have "chunks ''abc,def,123'' (unat (3 :: size_t)) (unat (3 :: size_t) + unat (1 :: size_t)) 0
          = [View 0 3, View 4 3, View 8 3]"
    by auto
  with h1 h2 h3 v show ?thesis by (intro conjI)
qed

end
